theory Spec2Isabelle
  imports Main "HOL-Library.Word"
begin

unbundle bit_operations_syntax

section \<open>JavaScript values used by the codecs\<close>

text \<open>
  A \<^verbatim>\<open>Uint8Array\<close> is read as the list of its bytes. A JavaScript number that holds an
  integer is \<open>Num i\<close>; every integral double is such an \<open>i\<close>, and all arithmetic the codecs
  perform on integers stays below \<open>2^53\<close>, where doubles are exact. \<open>NaN\<close> is the
  not-a-number double and \<open>Undefined\<close> is what an out-of-range element read returns.
\<close>

type_synonym byte = "8 word"
type_synonym bytes = "byte list"

datatype jsval = Num int | NaN | Undefined

datatype error =
    ValueTooLarge          \<comment> \<open>\<^verbatim>\<open>Error('Integer too large: ...')\<close>\<close>
  | EmptyInput             \<comment> \<open>\<^verbatim>\<open>Error('Empty buffer provided')\<close>\<close>
  | TruncatedInput         \<comment> \<open>the \<^verbatim>\<open>RangeError\<close> of a \<^verbatim>\<open>DataView\<close> or typed-array access out of bounds\<close>
  | Base64Unavailable      \<comment> \<open>\<^verbatim>\<open>Error('Base64 ... is not available in this environment.')\<close>\<close>
  | InvalidBase64          \<comment> \<open>the exception of the host's \<^verbatim>\<open>atob\<close>/\<^verbatim>\<open>btoa\<close>\<close>
  | InvalidHashType
  | TooShort
  | TooLong
  | ExpectedSequence
  | InvalidSequenceLength
  | ExpectedInteger
  | RLengthZero
  | RLengthTooLong
  | ExpectedInteger2
  | SLengthZero
  | SLengthInvalid
  | RNegative
  | RExcessivelyPadded
  | SNegative
  | SExcessivelyPadded

text \<open>\<^verbatim>\<open>buffer[k]\<close>: the element, or \<^verbatim>\<open>undefined\<close> when the key is not an index of the
  array (outside its range, or \<^verbatim>\<open>NaN\<close>).\<close>

fun js_index :: "bytes \<Rightarrow> jsval \<Rightarrow> jsval" where
  "js_index buffer (Num i) =
     (if 0 \<le> i \<and> i < int (length buffer) then Num (uint (buffer ! nat i)) else Undefined)"
| "js_index buffer _ = Undefined"

text \<open>\<^verbatim>\<open>ToNumber\<close>, the arithmetic operators and the comparisons; every comparison with
  \<^verbatim>\<open>NaN\<close> is false.\<close>

fun ToNumber :: "jsval \<Rightarrow> jsval" where
  "ToNumber (Num i) = Num i"
| "ToNumber NaN = NaN"
| "ToNumber Undefined = NaN"

fun js_add :: "jsval \<Rightarrow> jsval \<Rightarrow> jsval" where
  "js_add (Num a) (Num b) = Num (a + b)"
| "js_add _ _ = NaN"

fun js_sub :: "jsval \<Rightarrow> jsval \<Rightarrow> jsval" where
  "js_sub (Num a) (Num b) = Num (a - b)"
| "js_sub _ _ = NaN"

fun js_mul :: "jsval \<Rightarrow> jsval \<Rightarrow> jsval" where
  "js_mul (Num a) (Num b) = Num (a * b)"
| "js_mul _ _ = NaN"

fun js_lt :: "jsval \<Rightarrow> jsval \<Rightarrow> bool" where
  "js_lt (Num a) (Num b) = (a < b)"
| "js_lt _ _ = False"

fun js_le :: "jsval \<Rightarrow> jsval \<Rightarrow> bool" where
  "js_le (Num a) (Num b) = (a \<le> b)"
| "js_le _ _ = False"

fun js_gt :: "jsval \<Rightarrow> jsval \<Rightarrow> bool" where
  "js_gt (Num a) (Num b) = (a > b)"
| "js_gt _ _ = False"

fun js_ge :: "jsval \<Rightarrow> jsval \<Rightarrow> bool" where
  "js_ge (Num a) (Num b) = (a \<ge> b)"
| "js_ge _ _ = False"

text \<open>\<^verbatim>\<open>===\<close> on numbers and \<^verbatim>\<open>undefined\<close>.\<close>

fun js_eq :: "jsval \<Rightarrow> jsval \<Rightarrow> bool" where
  "js_eq (Num a) (Num b) = (a = b)"
| "js_eq Undefined Undefined = True"
| "js_eq _ _ = False"

text \<open>\<^verbatim>\<open>Math.floor(v / 256)\<close> on an integer.\<close>

fun js_floor_div256 :: "jsval \<Rightarrow> jsval" where
  "js_floor_div256 (Num a) = Num (a div 256)"
| "js_floor_div256 _ = NaN"

text \<open>\<^verbatim>\<open>ToInt32\<close> and the bitwise operators, which work on 32-bit two's complement and give
  the signed reading back.\<close>

fun ToInt32 :: "jsval \<Rightarrow> 32 word" where
  "ToInt32 (Num i) = word_of_int i"
| "ToInt32 _ = 0"

definition js_and :: "jsval \<Rightarrow> jsval \<Rightarrow> jsval" where
  "js_and a b = Num (sint (ToInt32 a AND ToInt32 b))"

definition js_not :: "jsval \<Rightarrow> jsval" where
  "js_not a = Num (sint (NOT (ToInt32 a)))"

text \<open>Truthiness of a number in a condition.\<close>

fun js_truthy :: "jsval \<Rightarrow> bool" where
  "js_truthy (Num i) = (i \<noteq> 0)"
| "js_truthy _ = False"

text \<open>\<^verbatim>\<open>ToUint8\<close>, \<^verbatim>\<open>ToUint16\<close>, \<^verbatim>\<open>ToUint32\<close>: what a typed array or a \<^verbatim>\<open>DataView\<close> stores.\<close>

fun ToUint8 :: "jsval \<Rightarrow> byte" where
  "ToUint8 (Num i) = word_of_int i"
| "ToUint8 _ = 0"

fun ToUint16 :: "jsval \<Rightarrow> 16 word" where
  "ToUint16 (Num i) = word_of_int i"
| "ToUint16 _ = 0"

fun ToUint32 :: "jsval \<Rightarrow> 32 word" where
  "ToUint32 (Num i) = word_of_int i"
| "ToUint32 _ = 0"

text \<open>\<^verbatim>\<open>buffer[i] = v\<close> on a \<^verbatim>\<open>Uint8Array\<close>: a write outside the array is ignored.\<close>

definition js_store :: "bytes \<Rightarrow> nat \<Rightarrow> jsval \<Rightarrow> bytes" where
  "js_store buffer i v = (if i < length buffer then buffer[i := ToUint8 v] else buffer)"

text \<open>The \<^verbatim>\<open>DataView\<close> accessors over the whole array, little-endian; each throws a
  \<^verbatim>\<open>RangeError\<close> when the access does not fit.\<close>

definition setUint8 :: "bytes \<Rightarrow> nat \<Rightarrow> jsval \<Rightarrow> error + bytes" where
  "setUint8 view off v =
     (if off + 1 > length view then Inl TruncatedInput
      else Inr (view[off := ToUint8 v]))"

definition setUint16 :: "bytes \<Rightarrow> nat \<Rightarrow> jsval \<Rightarrow> error + bytes" where
  "setUint16 view off v =
     (if off + 2 > length view then Inl TruncatedInput
      else let w = ToUint16 v in
        Inr (view[off := ucast w, off + 1 := ucast (drop_bit 8 w)]))"

definition setUint32 :: "bytes \<Rightarrow> nat \<Rightarrow> jsval \<Rightarrow> error + bytes" where
  "setUint32 view off v =
     (if off + 4 > length view then Inl TruncatedInput
      else let w = ToUint32 v in
        Inr (view[off := ucast w, off + 1 := ucast (drop_bit 8 w),
                  off + 2 := ucast (drop_bit 16 w), off + 3 := ucast (drop_bit 24 w)]))"

definition getUint16 :: "bytes \<Rightarrow> nat \<Rightarrow> error + jsval" where
  "getUint16 view off =
     (if off + 2 > length view then Inl TruncatedInput
      else Inr (Num (uint (view ! off) + 256 * uint (view ! (off + 1)))))"

definition getUint32 :: "bytes \<Rightarrow> nat \<Rightarrow> error + jsval" where
  "getUint32 view off =
     (if off + 4 > length view then Inl TruncatedInput
      else Inr (Num (uint (view ! off) + 256 * uint (view ! (off + 1))
                     + 65536 * uint (view ! (off + 2)) + 16777216 * uint (view ! (off + 3)))))"

section \<open>VarInt\<close>

text \<open>The six-byte loop of \<^verbatim>\<open>VarInt.encode\<close>:
  \<^verbatim>\<open>for (j = 0; j < 6; j++) { buffer[1 + j] = value & 0xff; value = Math.floor(value / 256); }\<close>\<close>

function encode_loop :: "nat \<Rightarrow> jsval \<Rightarrow> bytes \<Rightarrow> bytes" where
  "encode_loop j v buffer =
     (if j < 6
      then encode_loop (j + 1) (js_floor_div256 v) (js_store buffer (1 + j) (js_and v (Num 0xff)))
      else buffer)"
  by pat_completeness auto
termination
  by (relation "measure (\<lambda>(j, v, buffer). 6 - j)") auto

declare encode_loop.simps [simp del]

definition VarInt_encode :: "jsval \<Rightarrow> error + bytes" where
  "VarInt_encode i =
     (if js_lt i (Num 0xFD) then
        Inr (js_store (replicate 1 0) 0 i)
      else if js_lt i (Num 0x10000) then
        (case setUint8 (replicate 3 0) 0 (Num 0xfd) of
           Inl e \<Rightarrow> Inl e
         | Inr buffer \<Rightarrow> setUint16 buffer 1 i)
      else if js_lt i (Num 0x100000000) then
        (case setUint8 (replicate 5 0) 0 (Num 0xfe) of
           Inl e \<Rightarrow> Inl e
         | Inr buffer \<Rightarrow> setUint32 buffer 1 i)
      else if js_lt i (Num 0x1000000000000) then
        (let buffer = js_store (replicate 9 0) 0 (Num 0xff);
             buffer = encode_loop 0 i buffer;
             buffer = js_store buffer 7 (Num 0x00);
             buffer = js_store buffer 8 (Num 0x00)
         in Inr buffer)
      else Inl ValueTooLarge)"

text \<open>\<^verbatim>\<open>readUIntLE\<close>: a plain loop over \<^verbatim>\<open>buffer[offset + i]\<close> with no bounds check, so
  an element outside the array enters the sum as \<^verbatim>\<open>undefined\<close> and the result is \<^verbatim>\<open>NaN\<close>.\<close>

function readUIntLE_loop :: "bytes \<Rightarrow> nat \<Rightarrow> nat \<Rightarrow> nat \<Rightarrow> jsval \<Rightarrow> jsval \<Rightarrow> jsval" where
  "readUIntLE_loop buffer offset len i v multiplier =
     (if i < len
      then readUIntLE_loop buffer offset len (i + 1)
             (js_add v (js_mul (ToNumber (js_index buffer (Num (int (offset + i))))) multiplier))
             (js_mul multiplier (Num 256))
      else v)"
  by pat_completeness auto
termination
  by (relation "measure (\<lambda>(buffer, offset, len, i, v, multiplier). len - i)") auto

declare readUIntLE_loop.simps [simp del]

definition readUIntLE :: "bytes \<Rightarrow> nat \<Rightarrow> nat \<Rightarrow> jsval" where
  "readUIntLE buffer offset len = readUIntLE_loop buffer offset len 0 (Num 0) (Num 1)"

definition readUInt16LE :: "bytes \<Rightarrow> nat \<Rightarrow> error + jsval" where
  "readUInt16LE buffer offset = getUint16 buffer offset"

definition readUInt32LE :: "bytes \<Rightarrow> nat \<Rightarrow> error + jsval" where
  "readUInt32LE buffer offset = getUint32 buffer offset"

definition VarInt_decode :: "bytes \<Rightarrow> error + jsval" where
  "VarInt_decode b =
     (if length b = 0 then Inl EmptyInput
      else let i = js_index b (Num 0) in
        if js_eq i (Num 0xfd) then readUInt16LE b 1
        else if js_eq i (Num 0xfe) then readUInt32LE b 1
        else if js_eq i (Num 0xff) then Inr (readUIntLE b 1 6)
        else Inr i)"

section \<open>BufferUtil\<close>

text \<open>\<^verbatim>\<open>ToIntegerOrInfinity\<close> of an index argument: \<^verbatim>\<open>NaN\<close> and \<^verbatim>\<open>undefined\<close> count as 0.\<close>

fun ToInteger :: "jsval \<Rightarrow> int" where
  "ToInteger (Num i) = i"
| "ToInteger _ = 0"

text \<open>\<^verbatim>\<open>array.subarray(begin, end)\<close>: a negative index counts from the end, both indices are
  clamped to the array, and a missing \<^verbatim>\<open>end\<close> (\<open>Undefined\<close>) is the length.\<close>

definition subarray :: "bytes \<Rightarrow> jsval \<Rightarrow> jsval \<Rightarrow> bytes" where
  "subarray array begin end =
     (let len = int (length array);
          relativeBegin = ToInteger begin;
          beginIndex = (if relativeBegin < 0 then max (len + relativeBegin) 0
                        else min relativeBegin len);
          relativeEnd = (if end = Undefined then len else ToInteger end);
          endIndex = (if relativeEnd < 0 then max (len + relativeEnd) 0
                      else min relativeEnd len);
          newLength = max (endIndex - beginIndex) 0
      in take (nat newLength) (drop (nat beginIndex) array))"

definition ensureBuffer :: "bytes \<Rightarrow> bytes" where
  "ensureBuffer val = val"

text \<open>\<^verbatim>\<open>BufferUtil.concat\<close> hands its parts to \<^verbatim>\<open>concatBytes\<close> of the hashing library, which
  copies them one after the other into a new array.\<close>

definition concatBytes :: "bytes list \<Rightarrow> bytes" where
  "concatBytes parts = List.concat parts"

definition BufferUtil_concat :: "bytes list \<Rightarrow> bytes" where
  "BufferUtil_concat parts = concatBytes parts"

text \<open>The host's \<^verbatim>\<open>atob\<close> and \<^verbatim>\<open>btoa\<close>, which may be missing (\<^verbatim>\<open>typeof atob !== 'function'\<close>).
  They work on binary strings, one character per byte.\<close>

record host =
  atob :: "(string \<Rightarrow> error + string) option"
  btoa :: "(string \<Rightarrow> error + string) option"

definition fromCharCode :: "bytes \<Rightarrow> string" where
  "fromCharCode chunk = map (\<lambda>b. char_of (uint b)) chunk"

definition charCodeAt :: "string \<Rightarrow> nat \<Rightarrow> jsval" where
  "charCodeAt binary i = (if i < length binary then Num (of_char (binary ! i)) else NaN)"

function base64ToBytes_loop :: "string \<Rightarrow> nat \<Rightarrow> bytes \<Rightarrow> bytes" where
  "base64ToBytes_loop binary i out =
     (if i < length binary
      then base64ToBytes_loop binary (i + 1) (js_store out i (charCodeAt binary i))
      else out)"
  by pat_completeness auto
termination
  by (relation "measure (\<lambda>(binary, i, out). length binary - i)") auto

declare base64ToBytes_loop.simps [simp del]

definition base64ToBytes :: "host \<Rightarrow> string \<Rightarrow> error + bytes" where
  "base64ToBytes h v =
     (case atob h of
        None \<Rightarrow> Inl Base64Unavailable
      | Some f \<Rightarrow>
          (case f v of
             Inl e \<Rightarrow> Inl e
           | Inr binary \<Rightarrow> Inr (base64ToBytes_loop binary 0 (replicate (length binary) 0))))"

definition chunkSize :: nat where
  "chunkSize = 0x8000"

function bytesToBase64_loop :: "bytes \<Rightarrow> nat \<Rightarrow> string \<Rightarrow> string" where
  "bytesToBase64_loop v i binary =
     (if i < length v
      then bytesToBase64_loop v (i + chunkSize)
             (binary @ fromCharCode (subarray v (Num (int i)) (Num (int (i + chunkSize)))))
      else binary)"
  by pat_completeness auto
termination
  by (relation "measure (\<lambda>(v, i, binary). length v - i)") (auto simp add: chunkSize_def)

declare bytesToBase64_loop.simps [simp del]

definition bytesToBase64 :: "host \<Rightarrow> bytes \<Rightarrow> error + string" where
  "bytesToBase64 h v =
     (case btoa h of
        None \<Rightarrow> Inl Base64Unavailable
      | Some f \<Rightarrow> f (bytesToBase64_loop v 0 []))"

definition fromBase64 :: "host \<Rightarrow> string \<Rightarrow> error + bytes" where
  "fromBase64 h v = base64ToBytes h v"

definition toBase64 :: "host \<Rightarrow> bytes \<Rightarrow> error + string" where
  "toBase64 h v = bytesToBase64 h v"

section \<open>VarStr\<close>

text \<open>Modelled from the spec: the class \<^verbatim>\<open>VarStr\<close> (\<^verbatim>\<open>./VarStr\<close>, imported by
  \<^verbatim>\<open>Witness.ts\<close>) is not among the sources. Section 4.2 of the specification:
  \<^verbatim>\<open>encode(bytes)\<close> is \<^verbatim>\<open>VarInt(length) ++ bytes\<close>; \<^verbatim>\<open>decode(buffer)\<close> decodes a VarInt
  giving \<^verbatim>\<open>(len, headerSize)\<close>, fails with \<^verbatim>\<open>TruncatedInput\<close> if fewer than
  \<^verbatim>\<open>headerSize + len\<close> bytes remain, and returns the \<^verbatim>\<open>len\<close> bytes following the header.
  The header size is the number of bytes section 4.1 says the VarInt consumes: 1, or 3, 5, 9
  after the tags \<^verbatim>\<open>0xFD\<close>, \<^verbatim>\<open>0xFE\<close>, \<^verbatim>\<open>0xFF\<close>.\<close>

definition VarStr_encode :: "bytes \<Rightarrow> error + bytes" where
  "VarStr_encode s =
     (case VarInt_encode (Num (int (length s))) of
        Inl e \<Rightarrow> Inl e
      | Inr lengthInVarInt \<Rightarrow> Inr (lengthInVarInt @ s))"

definition headerSize :: "bytes \<Rightarrow> nat" where
  "headerSize buffer =
     (case buffer of
        [] \<Rightarrow> 0
      | tag # _ \<Rightarrow> if tag = 0xfd then 3 else if tag = 0xfe then 5 else if tag = 0xff then 9 else 1)"

definition VarStr_decode :: "bytes \<Rightarrow> error + bytes" where
  "VarStr_decode buffer =
     (case VarInt_decode buffer of
        Inl e \<Rightarrow> Inl e
      | Inr (Num len) \<Rightarrow>
          if int (length buffer) < int (headerSize buffer) + len then Inl TruncatedInput
          else Inr (take (nat len) (drop (headerSize buffer) buffer))
      | Inr _ \<Rightarrow> Inl TruncatedInput)"

section \<open>Witness\<close>

text \<open>The \<^verbatim>\<open>forEach\<close> of \<^verbatim>\<open>Witness.serialize\<close>, which appends each witness as a VarStr.\<close>

fun serialize_forEach :: "bytes list \<Rightarrow> bytes \<Rightarrow> error + bytes" where
  "serialize_forEach [] witnessStack = Inr witnessStack"
| "serialize_forEach (witness # rest) witnessStack =
     (case VarStr_encode witness of
        Inl e \<Rightarrow> Inl e
      | Inr v \<Rightarrow> serialize_forEach rest (BufferUtil_concat [witnessStack, v]))"

text \<open>The witness stack that \<^verbatim>\<open>Witness.serialize\<close> builds before it encodes it in base 64.\<close>

definition serialize_stack :: "bytes list \<Rightarrow> error + bytes" where
  "serialize_stack witnesses =
     (case VarInt_encode (Num (int (length witnesses))) of
        Inl e \<Rightarrow> Inl e
      | Inr witnessStack \<Rightarrow> serialize_forEach witnesses witnessStack)"

definition serialize :: "host \<Rightarrow> bytes list \<Rightarrow> error + string" where
  "serialize h witnesses =
     (case serialize_stack witnesses of
        Inl e \<Rightarrow> Inl e
      | Inr witnessStack \<Rightarrow> toBase64 h witnessStack)"

text \<open>The argument of \<^verbatim>\<open>Witness.deserialize\<close>: \<^verbatim>\<open>string | Uint8Array\<close>.\<close>

datatype encodedWitness = Base64 string | Raw bytes

fun loop_bound :: "jsval \<Rightarrow> int \<Rightarrow> nat" where
  "loop_bound (Num n) i = nat (n - i)"
| "loop_bound _ i = 0"

text \<open>\<^verbatim>\<open>for (let i = 0; i < witnessCount; i++)\<close> of \<^verbatim>\<open>Witness.deserialize\<close>.\<close>

function deserialize_loop :: "jsval \<Rightarrow> int \<Rightarrow> bytes \<Rightarrow> bytes list \<Rightarrow> error + bytes list" where
  "deserialize_loop witnessCount i witnessToDecode witnessDecoded =
     (if js_lt (Num i) witnessCount then
        (case VarStr_decode witnessToDecode of
           Inl e \<Rightarrow> Inl e
         | Inr witness \<Rightarrow>
             (case VarStr_encode witness of
                Inl e \<Rightarrow> Inl e
              | Inr v \<Rightarrow>
                  deserialize_loop witnessCount (i + 1)
                    (ensureBuffer (subarray witnessToDecode (Num (int (length v))) Undefined))
                    (witnessDecoded @ [witness])))
      else Inr witnessDecoded)"
  by pat_completeness auto
termination
proof (relation "measure (\<lambda>(witnessCount, i, witnessToDecode, witnessDecoded).
                   loop_bound witnessCount i)")
  show "wf (measure (\<lambda>(witnessCount, i, witnessToDecode, witnessDecoded).
                   loop_bound witnessCount i))"
    by simp
next
  fix witnessCount :: jsval and i :: int and witnessToDecode :: bytes
    and witnessDecoded :: "bytes list" and x2 x2a :: bytes
  assume "js_lt (Num i) witnessCount"
  then show "((witnessCount, i + 1,
         ensureBuffer (subarray witnessToDecode (Num (int (length x2a))) Undefined),
         witnessDecoded @ [x2]),
        witnessCount, i, witnessToDecode, witnessDecoded)
       \<in> measure (\<lambda>(witnessCount, i, witnessToDecode, witnessDecoded).
                   loop_bound witnessCount i)"
    by (cases witnessCount) simp_all
qed

declare deserialize_loop.simps [simp del]

definition deserialize :: "host \<Rightarrow> encodedWitness \<Rightarrow> error + bytes list" where
  "deserialize h encoded =
     (case (case encoded of Base64 str \<Rightarrow> fromBase64 h str | Raw b \<Rightarrow> Inr b) of
        Inl e \<Rightarrow> Inl e
      | Inr witnessToDecode \<Rightarrow>
          (case VarInt_decode witnessToDecode of
             Inl e \<Rightarrow> Inl e
           | Inr witnessCount \<Rightarrow>
               (case VarInt_encode witnessCount of
                  Inl e \<Rightarrow> Inl e
                | Inr v \<Rightarrow>
                    deserialize_loop witnessCount 0
                      (ensureBuffer (subarray witnessToDecode (Num (int (length v))) Undefined))
                      [])))"

section \<open>The strict DER signature decoder\<close>

record ScriptSignature =
  signature :: bytes
  hashType :: jsval

record DecodedSignature =
  der_r :: bytes
  der_s :: bytes

text \<open>\<^verbatim>\<open>target.set(source, offset)\<close> on a \<^verbatim>\<open>Uint8Array\<close>: a \<^verbatim>\<open>RangeError\<close> when the source
  does not fit.\<close>

definition typed_set :: "bytes \<Rightarrow> bytes \<Rightarrow> int \<Rightarrow> error + bytes" where
  "typed_set target source offset =
     (if offset < 0 \<or> int (length source) + offset > int (length target) then Inl TruncatedInput
      else Inr (take (nat offset) target @ source
                @ drop (nat offset + length source) target))"

definition fromDER :: "bytes \<Rightarrow> error + bytes" where
  "fromDER x =
     (let data = x;
          data = (if js_eq (js_index data (Num 0)) (Num 0x00)
                  then subarray data (Num 1) Undefined else data);
          buffer = replicate 32 0;
          trimmed = (if length data > 32
                     then subarray data (Num (int (length data) - 32)) Undefined else data);
          bstart = 32 - int (length trimmed)
      in typed_set buffer trimmed bstart)"

definition decode2 :: "bytes \<Rightarrow> error + DecodedSignature" where
  "decode2 buffer =
     (let len = Num (int (length buffer)) in
      if js_lt len (Num 8) then Inl TooShort
      else if js_gt len (Num 72) then Inl TooLong
      else if \<not> js_eq (js_index buffer (Num 0)) (Num 0x30) then Inl ExpectedSequence
      else if \<not> js_eq (js_index buffer (Num 1)) (js_sub len (Num 2))
        then Inl InvalidSequenceLength
      else if \<not> js_eq (js_index buffer (Num 2)) (Num 0x02) then Inl ExpectedInteger
      else let lenR = js_index buffer (Num 3) in
      if js_eq lenR (Num 0) then Inl RLengthZero
      else if js_ge (js_add (Num 5) lenR) len then Inl RLengthTooLong
      else if \<not> js_eq (js_index buffer (js_add (Num 4) lenR)) (Num 0x02)
        then Inl ExpectedInteger2
      else let lenS = js_index buffer (js_add (Num 5) lenR) in
      if js_eq lenS (Num 0) then Inl SLengthZero
      else if \<not> js_eq (js_add (js_add (Num 6) lenR) lenS) len then Inl SLengthInvalid
      else if js_truthy (js_and (js_index buffer (Num 4)) (Num 0x80)) then Inl RNegative
      else if js_gt lenR (Num 1) \<and> js_eq (js_index buffer (Num 4)) (Num 0x00)
              \<and> \<not> js_truthy (js_and (js_index buffer (Num 5)) (Num 0x80))
        then Inl RExcessivelyPadded
      else if js_truthy (js_and (js_index buffer (js_add lenR (Num 6))) (Num 0x80))
        then Inl SNegative
      else if js_gt lenS (Num 1) \<and> js_eq (js_index buffer (js_add lenR (Num 6))) (Num 0x00)
              \<and> \<not> js_truthy (js_and (js_index buffer (js_add lenR (Num 7))) (Num 0x80))
        then Inl SExcessivelyPadded
      else Inr \<lparr>der_r = subarray buffer (Num 4) (js_add (Num 4) lenR),
                der_s = subarray buffer (js_add (Num 6) lenR) Undefined\<rparr>)"

definition decodeScriptSignature :: "bytes \<Rightarrow> error + ScriptSignature" where
  "decodeScriptSignature buffer =
     (let hashType = js_index buffer (js_sub (Num (int (length buffer))) (Num 1));
          hashTypeMod = js_and hashType (js_not (Num 0x80)) in
      if js_le hashTypeMod (Num 0) \<or> js_ge hashTypeMod (Num 4) then Inl InvalidHashType
      else
        (case decode2 (subarray buffer (Num 0) (Num (- 1))) of
           Inl e \<Rightarrow> Inl e
         | Inr decoded \<Rightarrow>
             (case fromDER (der_r decoded) of
                Inl e \<Rightarrow> Inl e
              | Inr r \<Rightarrow>
                  (case fromDER (der_s decoded) of
                     Inl e \<Rightarrow> Inl e
                   | Inr s \<Rightarrow> Inr \<lparr>signature = concatBytes [r, s], hashType = hashType\<rparr>))))"

section \<open>The bytes of an encoding, for the statements about the Witness codec\<close>

text \<open>The VarInt of \<open>n\<close>, the VarStr of a byte string and the concatenated VarStr encodings of
  a list of byte strings, each as \<open>VarInt_encode\<close> produces it.\<close>

definition varint_bytes :: "nat \<Rightarrow> bytes" where
  "varint_bytes n = (case VarInt_encode (Num (int n)) of Inl e \<Rightarrow> [] | Inr h \<Rightarrow> h)"

definition varstr_bytes :: "bytes \<Rightarrow> bytes" where
  "varstr_bytes w = varint_bytes (length w) @ w"

definition items_bytes :: "bytes list \<Rightarrow> bytes" where
  "items_bytes ws = List.concat (map varstr_bytes ws)"

text \<open>The byte a character of a binary string stands for, as \<^verbatim>\<open>out[i] = binary.charCodeAt(i)\<close>
  stores it.\<close>

definition code_of :: "char \<Rightarrow> byte" where
  "code_of c = ToUint8 (Num (of_char c))"

section \<open>The quantities the statements about the signature decoder speak of\<close>

text \<open>The signature payload (the buffer with the hash-type byte stripped, as
  \<^verbatim>\<open>buffer.subarray(0, -1)\<close> gives it), the two length fields \<open>lenR = payload[3]\<close> and
  \<open>lenS = payload[5 + lenR]\<close>, and the checks of section 4.4 that come before the comparison
  of \<open>6 + lenR + lenS\<close> with the payload length.\<close>

definition payload_of :: "bytes \<Rightarrow> bytes" where
  "payload_of buffer = subarray buffer (Num 0) (Num (- 1))"

definition lenR_of :: "bytes \<Rightarrow> int" where
  "lenR_of p = uint (p ! 3)"

definition lenS_of :: "bytes \<Rightarrow> int" where
  "lenS_of p = uint (p ! nat (5 + lenR_of p))"

definition checks_before_SLength :: "bytes \<Rightarrow> bool" where
  "checks_before_SLength p =
     (8 \<le> length p \<and> length p \<le> 72 \<and> p ! 0 = 0x30 \<and> uint (p ! 1) = int (length p) - 2
      \<and> p ! 2 = 0x02 \<and> lenR_of p \<noteq> 0 \<and> 4 + lenR_of p + 1 < int (length p)
      \<and> p ! nat (4 + lenR_of p) = 0x02 \<and> lenS_of p \<noteq> 0)"

text \<open>The hash-type byte is valid: it is there, and \<open>hashType & ~0x80\<close> lies strictly between
  0 and 4.\<close>

definition hashType_valid :: "bytes \<Rightarrow> bool" where
  "hashType_valid buffer =
     (buffer \<noteq> [] \<and> 0 < uint (last buffer AND NOT 0x80) \<and> uint (last buffer AND NOT 0x80) < 4)"

text \<open>Section 4.4, step 2 (l): \<open>R = payload[4 : 4 + lenR]\<close> and
  \<open>S = payload[6 + lenR : 6 + lenR + lenS]\<close>.\<close>

definition R_of :: "bytes \<Rightarrow> bytes" where
  "R_of p = take (nat (lenR_of p)) (drop 4 p)"

definition S_of :: "bytes \<Rightarrow> bytes" where
  "S_of p = take (nat (lenS_of p)) (drop (nat (6 + lenR_of p)) p)"

text \<open>Section 4.4, step 2, in the specification's words: the ordered checks (a) to (k) on the
  payload and the extraction (l), each check failing fast with its own error.\<close>

definition high_bit :: "byte \<Rightarrow> bool" where
  "high_bit b = (b AND 0x80 \<noteq> 0)"

definition spec_strict_der :: "bytes \<Rightarrow> error + DecodedSignature" where
  "spec_strict_der p =
     (let len = int (length p) in
      if len < 8 then Inl TooShort
      else if len > 72 then Inl TooLong
      else if p ! 0 \<noteq> 0x30 then Inl ExpectedSequence
      else if uint (p ! 1) \<noteq> len - 2 then Inl InvalidSequenceLength
      else if p ! 2 \<noteq> 0x02 then Inl ExpectedInteger
      else let lenR = uint (p ! 3) in
      if lenR = 0 then Inl RLengthZero
      else if 4 + lenR + 1 \<ge> len then Inl RLengthTooLong
      else if p ! nat (4 + lenR) \<noteq> 0x02 then Inl ExpectedInteger2
      else let lenS = uint (p ! nat (5 + lenR)) in
      if lenS = 0 then Inl SLengthZero
      else if 6 + lenR + lenS \<noteq> len then Inl SLengthInvalid
      else if high_bit (p ! 4) then Inl RNegative
      else if lenR > 1 \<and> p ! 4 = 0x00 \<and> \<not> high_bit (p ! 5) then Inl RExcessivelyPadded
      else if high_bit (p ! nat (lenR + 6)) then Inl SNegative
      else if lenS > 1 \<and> p ! nat (lenR + 6) = 0x00 \<and> \<not> high_bit (p ! nat (lenR + 7))
        then Inl SExcessivelyPadded
      else Inr \<lparr>der_r = take (nat lenR) (drop 4 p),
                der_s = take (nat lenS) (drop (nat (6 + lenR)) p)\<rparr>)"

text \<open>Section 4.4, step 3, in the specification's words: strip a single leading \<open>0x00\<close>
  sign-guard byte if present, then left-zero-pad to 32 bytes, or keep the low 32 bytes if
  longer.\<close>

definition spec_fixed32 :: "bytes \<Rightarrow> bytes" where
  "spec_fixed32 x =
     (let stripped = (case x of b # rest \<Rightarrow> if b = 0x00 then rest else x | [] \<Rightarrow> x)
      in if length stripped \<le> 32 then replicate (32 - length stripped) 0 @ stripped
         else drop (length stripped - 32) stripped)"

(*PROPERTIES*)

section \<open>Arithmetic and word facts shared by the proofs\<close>

lemma step256: "(i::int) div a = i div a mod 256 + 256 * (i div (a * 256))" if "0 < a"
proof -
  have "i div (a * 256) = i div a div 256"
    using that by (simp add: zdiv_zmult2_eq)
  then show ?thesis by simp
qed

lemma lin4:
  "(i::int) = m0 + 256 * d1 \<Longrightarrow> d1 = m1 + 256 * d2 \<Longrightarrow> d2 = m2 + 256 * d3
   \<Longrightarrow> m0 + 256 * m1 + 65536 * m2 + 16777216 * d3 = i"
  by simp

lemma lin6:
  "(i::int) = m0 + 256 * d1 \<Longrightarrow> d1 = m1 + 256 * d2 \<Longrightarrow> d2 = m2 + 256 * d3
   \<Longrightarrow> d3 = m3 + 256 * d4 \<Longrightarrow> d4 = m4 + 256 * d5
   \<Longrightarrow> m0 + 256 * m1 + 65536 * m2 + 16777216 * m3 + 4294967296 * m4
         + 1099511627776 * d5 = i"
  by simp

lemma le4:
  assumes "0 \<le> i" and "i < 4294967296"
  shows "(i::int) mod 256 + 256 * (i div 256 mod 256) + 65536 * (i div 65536 mod 256)
     + 16777216 * (i div 16777216 mod 256) = i"
proof -
  have "i div 16777216 < 256" "0 \<le> i div 16777216"
    using assms by simp_all
  then have m: "i div 16777216 mod 256 = i div 16777216"
    by simp
  show ?thesis
    unfolding m
  proof (rule lin4)
    show "i = i mod 256 + 256 * (i div 256)" by simp
    show "i div 256 = i div 256 mod 256 + 256 * (i div 65536)"
      using step256 [of 256 i] by simp
    show "i div 65536 = i div 65536 mod 256 + 256 * (i div 16777216)"
      using step256 [of 65536 i] by simp
  qed
qed

lemma le6:
  assumes "0 \<le> i" and "i < 281474976710656"
  shows "(i::int) mod 256 + 256 * (i div 256 mod 256) + 65536 * (i div 65536 mod 256)
     + 16777216 * (i div 16777216 mod 256) + 4294967296 * (i div 4294967296 mod 256)
     + 1099511627776 * (i div 1099511627776 mod 256) = i"
proof -
  have "i div 1099511627776 < 256" "0 \<le> i div 1099511627776"
    using assms by simp_all
  then have m: "i div 1099511627776 mod 256 = i div 1099511627776"
    by simp
  show ?thesis
    unfolding m
  proof (rule lin6)
    show "i = i mod 256 + 256 * (i div 256)" by simp
    show "i div 256 = i div 256 mod 256 + 256 * (i div 65536)"
      using step256 [of 256 i] by simp
    show "i div 65536 = i div 65536 mod 256 + 256 * (i div 16777216)"
      using step256 [of 65536 i] by simp
    show "i div 16777216 = i div 16777216 mod 256 + 256 * (i div 4294967296)"
      using step256 [of 16777216 i] by simp
    show "i div 4294967296 = i div 4294967296 mod 256 + 256 * (i div 1099511627776)"
      using step256 [of 4294967296 i] by simp
  qed
qed

lemma le2:
  assumes "0 \<le> i" and "i < 65536"
  shows "(i::int) mod 256 + 256 * (i div 256 mod 256) = i"
proof -
  have "i div 256 < 256" "0 \<le> i div 256"
    using assms by simp_all
  then have m: "i div 256 mod 256 = i div 256"
    by simp
  show ?thesis
    unfolding m by simp
qed

lemma ucast_drop_bit_word_of_int:
  "n + LENGTH('b) \<le> LENGTH('a) \<Longrightarrow>
   (ucast (drop_bit n (word_of_int i :: 'a::len word)) :: 'b::len word)
     = word_of_int (drop_bit n i)"
  by (rule bit_word_eqI) (auto simp add: bit_simps)

lemma ucast16_8_drop:
  "(ucast (drop_bit 8 (word_of_int i :: 16 word)) :: byte) = word_of_int (i div 256)"
  using ucast_drop_bit_word_of_int [where 'a=16 and 'b=8 and n=8 and i=i]
  by (simp add: drop_bit_eq_div)

lemma ucast32_8_drop:
  "(ucast (drop_bit 8 (word_of_int i :: 32 word)) :: byte) = word_of_int (i div 256)"
  "(ucast (drop_bit 16 (word_of_int i :: 32 word)) :: byte) = word_of_int (i div 65536)"
  "(ucast (drop_bit 24 (word_of_int i :: 32 word)) :: byte) = word_of_int (i div 16777216)"
  using ucast_drop_bit_word_of_int [where 'a=32 and 'b=8 and n=8 and i=i]
    ucast_drop_bit_word_of_int [where 'a=32 and 'b=8 and n=16 and i=i]
    ucast_drop_bit_word_of_int [where 'a=32 and 'b=8 and n=24 and i=i]
  by (simp_all add: drop_bit_eq_div)

lemma ucast_woi_8:
  "(ucast (word_of_int i :: 16 word) :: byte) = word_of_int i"
  "(ucast (word_of_int i :: 32 word) :: byte) = word_of_int i"
  by (rule bit_word_eqI, auto simp add: bit_simps)+

lemma ff_mask: "(255 :: 32 word) = mask 8"
  by (simp add: mask_eq_exp_minus_1)

lemma ToUint8_and_ff: "ToUint8 (js_and (Num v) (Num 0xff)) = word_of_int v"
proof -
  have "(word_of_int (sint ((word_of_int v :: 32 word) AND mask 8)) :: byte) = word_of_int v"
    by (rule bit_word_eqI) (auto simp add: bit_simps)
  then show ?thesis
    by (simp add: js_and_def ff_mask)
qed

lemma uint8_woi: "uint (word_of_int i :: byte) = i mod 256"
  by (simp add: uint_word_of_int take_bit_eq_mod)

lemma uint_byte_eq:
  "(uint (b::byte) = 253) = (b = 253)"
  "(uint (b::byte) = 254) = (b = 254)"
  "(uint (b::byte) = 255) = (b = 255)"
  by (auto simp add: word_uint_eq_iff)

lemma replicate_nums:
  "replicate 3 x = [x, x, x]"
  "replicate 5 x = [x, x, x, x, x]"
  "replicate 9 x = [x, x, x, x, x, x, x, x, x]"
  by (simp_all add: eval_nat_numeral)

section \<open>Properties of the VarInt codec\<close>

subsection \<open>What \<open>VarInt_encode\<close> writes in each tier\<close>

lemma encode_tier1: "i < 0xFD \<Longrightarrow> VarInt_encode (Num i) = Inr [word_of_int i]"
  by (simp add: VarInt_encode_def js_store_def)

lemma encode_tier2:
  "0xFD \<le> i \<Longrightarrow> i < 0x10000 \<Longrightarrow>
   VarInt_encode (Num i) = Inr [0xfd, word_of_int i, word_of_int (i div 256)]"
  by (simp add: VarInt_encode_def setUint8_def setUint16_def ucast_woi_8 ucast16_8_drop replicate_nums)

lemma encode_tier3:
  "0x10000 \<le> i \<Longrightarrow> i < 0x100000000 \<Longrightarrow>
   VarInt_encode (Num i) = Inr [0xfe, word_of_int i, word_of_int (i div 256),
                         word_of_int (i div 65536), word_of_int (i div 16777216)]"
  by (simp add: VarInt_encode_def setUint8_def setUint32_def ucast_woi_8 ucast32_8_drop replicate_nums)

lemma encode_loop_step:
  "j < 6 \<Longrightarrow> k = j + 1 \<Longrightarrow> k < length buffer \<Longrightarrow>
   encode_loop j (Num v) buffer
     = encode_loop k (Num (v div 256)) (buffer[k := word_of_int v])"
  by (subst encode_loop.simps) (simp add: js_store_def ToUint8_and_ff)

lemma encode_loop_stop: "encode_loop 6 v buffer = buffer"
  by (subst encode_loop.simps) simp

lemma div_div256: "0 < a \<Longrightarrow> (i::int) div a div 256 = i div (a * 256)"
  by (simp add: zdiv_zmult2_eq)

lemma div256s:
  "(v::int) div 256 div 256 = v div 65536"
  "(v::int) div 65536 div 256 = v div 16777216"
  "(v::int) div 16777216 div 256 = v div 4294967296"
  "(v::int) div 4294967296 div 256 = v div 1099511627776"
  by (simp_all add: div_div256)

lemma encode_loop_steps:
  assumes "length b = 9"
  shows "encode_loop 0 (Num v) b = encode_loop 1 (Num (v div 256)) (b[1 := word_of_int v])"
    and "encode_loop 1 (Num v) b = encode_loop 2 (Num (v div 256)) (b[2 := word_of_int v])"
    and "encode_loop 2 (Num v) b = encode_loop 3 (Num (v div 256)) (b[3 := word_of_int v])"
    and "encode_loop 3 (Num v) b = encode_loop 4 (Num (v div 256)) (b[4 := word_of_int v])"
    and "encode_loop 4 (Num v) b = encode_loop 5 (Num (v div 256)) (b[5 := word_of_int v])"
    and "encode_loop 5 (Num v) b = encode_loop 6 (Num (v div 256)) (b[6 := word_of_int v])"
proof -
  show "encode_loop 0 (Num v) b = encode_loop 1 (Num (v div 256)) (b[1 := word_of_int v])"
    by (rule encode_loop_step) (simp_all add: assms)
  show "encode_loop 1 (Num v) b = encode_loop 2 (Num (v div 256)) (b[2 := word_of_int v])"
    by (rule encode_loop_step) (simp_all add: assms)
  show "encode_loop 2 (Num v) b = encode_loop 3 (Num (v div 256)) (b[3 := word_of_int v])"
    by (rule encode_loop_step) (simp_all add: assms)
  show "encode_loop 3 (Num v) b = encode_loop 4 (Num (v div 256)) (b[4 := word_of_int v])"
    by (rule encode_loop_step) (simp_all add: assms)
  show "encode_loop 4 (Num v) b = encode_loop 5 (Num (v div 256)) (b[5 := word_of_int v])"
    by (rule encode_loop_step) (simp_all add: assms)
  show "encode_loop 5 (Num v) b = encode_loop 6 (Num (v div 256)) (b[6 := word_of_int v])"
    by (rule encode_loop_step) (simp_all add: assms)
qed

lemma encode_loop_6:
  assumes "length b = 9"
  shows "encode_loop 0 (Num v) b =
    b[1 := word_of_int v, 2 := word_of_int (v div 256), 3 := word_of_int (v div 65536),
      4 := word_of_int (v div 16777216), 5 := word_of_int (v div 4294967296),
      6 := word_of_int (v div 1099511627776)]"
  by (simp only: encode_loop_steps encode_loop_stop assms length_list_update div256s)

lemma upd9:
  "[a0, a1, a2, a3, a4, a5, a6, a7, a8][1 := b1, 2 := b2, 3 := b3, 4 := b4, 5 := b5, 6 := b6]
    = [a0, b1, b2, b3, b4, b5, b6, a7, a8]"
  by (simp add: eval_nat_numeral)

lemma encode_tier4:
  assumes "0x100000000 \<le> i" and "i < 0x1000000000000"
  shows "VarInt_encode (Num i) = Inr [0xff, word_of_int i, word_of_int (i div 256),
      word_of_int (i div 65536), word_of_int (i div 16777216), word_of_int (i div 4294967296),
      word_of_int (i div 1099511627776), 0, 0]"
proof -
  let ?b0 = "[0xff, 0, 0, 0, 0, 0, 0, 0, 0] :: bytes"
  have b0: "js_store (replicate 9 0) 0 (Num 0xff) = ?b0"
    by (simp add: js_store_def replicate_nums)
  have loop: "encode_loop 0 (Num i) ?b0 = [0xff, word_of_int i, word_of_int (i div 256),
      word_of_int (i div 65536), word_of_int (i div 16777216), word_of_int (i div 4294967296),
      word_of_int (i div 1099511627776), 0, 0]"
  proof -
    have "length ?b0 = 9" by simp
    then show ?thesis
      by (simp only: encode_loop_6 upd9)
  qed
  have c: "\<not> i < 0xFD" "\<not> i < 0x10000" "\<not> i < 0x100000000"
    using assms(1) by simp_all
  show ?thesis
    unfolding VarInt_encode_def Let_def js_lt.simps b0 loop
    using c assms(2) by (simp add: js_store_def)
qed

lemma encode_too_large: "0x1000000000000 \<le> i \<Longrightarrow> VarInt_encode (Num i) = Inl ValueTooLarge"
  by (simp add: VarInt_encode_def)

subsection \<open>What \<open>VarInt_decode\<close> reads in each tier\<close>

lemma readUIntLE_loop_step:
  "i < len \<Longrightarrow> offset + i < length buffer \<Longrightarrow>
   readUIntLE_loop buffer offset len i (Num v) (Num m) =
   readUIntLE_loop buffer offset len (Suc i) (Num (v + uint (buffer ! (offset + i)) * m))
     (Num (m * 256))"
  by (subst readUIntLE_loop.simps) (simp add: js_index.simps flip: of_nat_add)

lemma readUIntLE_loop_stop: "readUIntLE_loop buffer offset len len v m = v"
  by (subst readUIntLE_loop.simps) simp

lemma decode_empty: "VarInt_decode [] = Inl EmptyInput"
  by (simp add: VarInt_decode_def)

lemma decode_tier1:
  "b0 \<noteq> 0xfd \<Longrightarrow> b0 \<noteq> 0xfe \<Longrightarrow> b0 \<noteq> 0xff \<Longrightarrow> VarInt_decode (b0 # rest) = Inr (Num (uint b0))"
  by (simp add: VarInt_decode_def js_index.simps uint_byte_eq)

lemma decode_tier2: "VarInt_decode (0xfd # b1 # b2 # rest) = Inr (Num (uint b1 + 256 * uint b2))"
  by (simp add: VarInt_decode_def js_index.simps readUInt16LE_def getUint16_def)

lemma decode_tier3:
  "VarInt_decode (0xfe # b1 # b2 # b3 # b4 # rest) =
     Inr (Num (uint b1 + 256 * uint b2 + 65536 * uint b3 + 16777216 * uint b4))"
  by (simp add: VarInt_decode_def js_index.simps readUInt32LE_def getUint32_def)

lemma decode_tier4:
  "VarInt_decode (0xff # b1 # b2 # b3 # b4 # b5 # b6 # rest) =
     Inr (Num (uint b1 + 256 * uint b2 + 65536 * uint b3 + 16777216 * uint b4
               + 4294967296 * uint b5 + 1099511627776 * uint b6))"
  apply (simp add: VarInt_decode_def js_index.simps readUIntLE_def)
  apply (simp add: readUIntLE_loop_step readUIntLE_loop_stop eval_nat_numeral)
  done

lemma decode_truncated_fd: "length rest < 2 \<Longrightarrow> VarInt_decode (0xfd # rest) = Inl TruncatedInput"
  by (simp add: VarInt_decode_def js_index.simps readUInt16LE_def getUint16_def)

lemma decode_truncated_fe: "length rest < 4 \<Longrightarrow> VarInt_decode (0xfe # rest) = Inl TruncatedInput"
  by (simp add: VarInt_decode_def js_index.simps readUInt32LE_def getUint32_def)

subsection \<open>Round trip\<close>

lemma subarray_from: "subarray b (Num (int n)) Undefined = drop n b"
  by (simp add: subarray_def Let_def min_def max_def)

lemma headerSize_simps:
  "headerSize (0xfd # rest) = 3" "headerSize (0xfe # rest) = 5" "headerSize (0xff # rest) = 9"
  by (simp_all add: headerSize_def)

lemma headerSize_small:
  "b0 \<noteq> 0xfd \<Longrightarrow> b0 \<noteq> 0xfe \<Longrightarrow> b0 \<noteq> 0xff \<Longrightarrow> headerSize (b0 # rest) = 1"
  by (simp add: headerSize_def)

lemma VarInt_header:
  assumes "0 \<le> i" and "i < 0x1000000000000"
  shows "\<exists>h. VarInt_encode (Num i) = Inr h \<and>
           (\<forall>rest. VarInt_decode (h @ rest) = Inr (Num i) \<and> headerSize (h @ rest) = length h) \<and>
           length h = (if i < 0xFD then 1 else if i < 0x10000 then 3
                       else if i < 0x100000000 then 5 else 9)"
proof -
  consider (t1) "i < 0xFD" | (t2) "0xFD \<le> i" "i < 0x10000"
    | (t3) "0x10000 \<le> i" "i < 0x100000000" | (t4) "0x100000000 \<le> i"
    by linarith
  then show ?thesis
  proof cases
    case t1
    have ne: "(word_of_int i :: byte) \<noteq> 0xfd" "(word_of_int i :: byte) \<noteq> 0xfe"
        "(word_of_int i :: byte) \<noteq> 0xff"
      using t1 assms(1) by (auto simp add: word_uint_eq_iff uint8_woi)
    show ?thesis using t1 assms(1)
      by (simp add: encode_tier1 decode_tier1 [OF ne] headerSize_small [OF ne] uint8_woi)
  next
    case t2
    let ?bs = "[0xfd, word_of_int i, word_of_int (i div 256)] :: bytes"
    have e: "VarInt_encode (Num i) = Inr ?bs"
      using t2 by (rule encode_tier2)
    have "VarInt_decode (?bs @ rest) = Inr (Num (i mod 256 + 256 * (i div 256 mod 256)))" for rest
      by (simp only: append_Cons append_Nil decode_tier2 uint8_woi)
    also have "\<dots> = Inr (Num i)"
      using t2 assms(1) by (simp only: le2)
    finally have d: "VarInt_decode (?bs @ rest) = Inr (Num i)" for rest .
    have c: "\<not> i < 0xFD" "i < 0x10000"
      using t2 by simp_all
    show ?thesis
      by (rule exI [of _ ?bs]) (simp add: e d c headerSize_simps del: append_Cons, simp add: headerSize_simps)
  next
    case t3
    let ?bs = "[0xfe, word_of_int i, word_of_int (i div 256), word_of_int (i div 65536),
                word_of_int (i div 16777216)] :: bytes"
    have e: "VarInt_encode (Num i) = Inr ?bs"
      using t3 by (rule encode_tier3)
    have "VarInt_decode (?bs @ rest) = Inr (Num (i mod 256 + 256 * (i div 256 mod 256)
            + 65536 * (i div 65536 mod 256) + 16777216 * (i div 16777216 mod 256)))" for rest
      by (simp only: append_Cons append_Nil decode_tier3 uint8_woi)
    also have "\<dots> = Inr (Num i)"
      using t3 assms(1) by (simp only: le4)
    finally have d: "VarInt_decode (?bs @ rest) = Inr (Num i)" for rest .
    have c: "\<not> i < 0xFD" "\<not> i < 0x10000" "i < 0x100000000"
      using t3 by simp_all
    show ?thesis
      by (rule exI [of _ ?bs]) (simp add: e d c headerSize_simps del: append_Cons, simp add: headerSize_simps)
  next
    case t4
    let ?bs = "[0xff, word_of_int i, word_of_int (i div 256), word_of_int (i div 65536),
                word_of_int (i div 16777216), word_of_int (i div 4294967296),
                word_of_int (i div 1099511627776), 0, 0] :: bytes"
    have e: "VarInt_encode (Num i) = Inr ?bs"
      using t4 assms(2) by (rule encode_tier4)
    have "VarInt_decode (?bs @ rest) = Inr (Num (i mod 256 + 256 * (i div 256 mod 256)
            + 65536 * (i div 65536 mod 256) + 16777216 * (i div 16777216 mod 256)
            + 4294967296 * (i div 4294967296 mod 256)
            + 1099511627776 * (i div 1099511627776 mod 256)))" for rest
      by (simp only: append_Cons append_Nil decode_tier4 uint8_woi)
    also have "\<dots> = Inr (Num i)"
      using assms by (simp only: le6)
    finally have d: "VarInt_decode (?bs @ rest) = Inr (Num i)" for rest .
    have c: "\<not> i < 0xFD" "\<not> i < 0x10000" "\<not> i < 0x100000000"
      using t4 by simp_all
    show ?thesis
      by (rule exI [of _ ?bs]) (simp add: e d c headerSize_simps del: append_Cons, simp add: headerSize_simps)
  qed
qed

lemma decode_encode:
  assumes "0 \<le> i" and "i < 0x1000000000000"
  shows "\<exists>b. VarInt_encode (Num i) = Inr b \<and> VarInt_decode b = Inr (Num i) \<and>
           length b = (if i < 0xFD then 1 else if i < 0x10000 then 3
                       else if i < 0x100000000 then 5 else 9)"
proof -
  from VarInt_header [OF assms] obtain h where
    h: "VarInt_encode (Num i) = Inr h"
       "\<forall>rest. VarInt_decode (h @ rest) = Inr (Num i) \<and> headerSize (h @ rest) = length h"
       "length h = (if i < 0xFD then 1 else if i < 0x10000 then 3
                    else if i < 0x100000000 then 5 else 9)"
    by blast
  from h(2) have "VarInt_decode (h @ []) = Inr (Num i)"
    by blast
  with h(1,3) show ?thesis
    by simp
qed

lemma encode_total:
  "(VarInt_encode (Num i) = Inl ValueTooLarge) = (0x1000000000000 \<le> i) \<and>
   (\<exists>b. VarInt_encode (Num i) = Inr b) = (i < 0x1000000000000)"
proof -
  consider (t1) "i < 0xFD" | (t2) "0xFD \<le> i" "i < 0x10000"
    | (t3) "0x10000 \<le> i" "i < 0x100000000" | (t4) "0x100000000 \<le> i" "i < 0x1000000000000"
    | (t5) "0x1000000000000 \<le> i"
    by linarith
  then show ?thesis
  proof cases
    case t1 then show ?thesis by (simp add: encode_tier1)
  next
    case t2 then show ?thesis by (simp add: encode_tier2)
  next
    case t3 then show ?thesis by (simp add: encode_tier3)
  next
    case t4 then show ?thesis by (simp add: encode_tier4)
  next
    case t5 then show ?thesis by (simp add: encode_too_large)
  qed
qed

text \<open>
  \<^bold>\<open>C1.\<close> For every integer \<open>i\<close> with \<open>0 \<le> i < 0x1000000000000\<close>, \<open>VarInt.encode\<close> returns a
  buffer that \<open>VarInt.decode\<close> reads back as \<open>i\<close>, and the buffer is 1 byte long below \<open>0xFD\<close>,
  3 bytes below \<open>0x10000\<close>, 5 bytes below \<open>0x100000000\<close> and 9 bytes from there on: a boundary
  value takes the next tier.
\<close>

theorem VarInt_roundtrip:
  assumes "0 \<le> i" and "i < 0x1000000000000"
  shows "\<exists>b. VarInt_encode (Num i) = Inr b \<and> VarInt_decode b = Inr (Num i) \<and>
           length b = (if i < 0xFD then 1 else if i < 0x10000 then 3
                       else if i < 0x100000000 then 5 else 9)"
  using assms by (rule decode_encode)

theorem VarInt_roundtrip_witness:
  "(0::int) \<le> 0x10000 \<and> (0x10000::int) < 0x1000000000000 \<and>
   (\<exists>b. VarInt_encode (Num 0x10000) = Inr b \<and> VarInt_decode b = Inr (Num 0x10000) \<and> length b = 5)"
  using VarInt_roundtrip [of "0x10000"] by simp

text \<open>
  \<^bold>\<open>C2.\<close> \<open>VarInt.decode\<close> on a buffer that holds the tag \<open>0xFF\<close> and fewer than six payload
  bytes: \<open>readUIntLE\<close> adds \<^verbatim>\<open>undefined\<close> elements into its sum, and \<open>VarInt_decode\<close> returns \<^verbatim>\<open>NaN\<close>
  where the tags \<open>0xFD\<close> and \<open>0xFE\<close> fail (\<open>decode_truncated_fd\<close>, \<open>decode_truncated_fe\<close>)
  and the empty buffer fails with \<open>EmptyInput\<close> (\<open>decode_empty\<close>).
\<close>

theorem VarInt_decode_short_0xff:
  "VarInt_decode [0xff] = Inr NaN \<and> VarInt_decode [0xff, 0x01, 0x02, 0x03, 0x04, 0x05] = Inr NaN"
  by (simp add: VarInt_decode_def js_index.simps readUIntLE_def readUIntLE_loop.simps)

text \<open>
  \<^bold>\<open>C3.\<close> On an integer \<open>i\<close>, \<open>VarInt.encode\<close> fails with \<open>ValueTooLarge\<close> exactly when
  \<open>i \<ge> 0x1000000000000\<close>, and returns an encoding exactly when \<open>i\<close> is below that bound.
\<close>

theorem VarInt_encode_ValueTooLarge:
  "(VarInt_encode (Num i) = Inl ValueTooLarge) = (0x1000000000000 \<le> i) \<and>
   (\<exists>b. VarInt_encode (Num i) = Inr b) = (i < 0x1000000000000)"
  by (rule encode_total)

text \<open>
  \<^bold>\<open>C10.\<close> On a negative integer \<open>i\<close>, \<open>VarInt.encode\<close> takes the one-byte branch and returns
  the single byte \<open>i mod 256\<close>; decoding that byte does not give \<open>i\<close> back.
\<close>

theorem VarInt_encode_negative:
  assumes "i < 0"
  shows "\<exists>b. VarInt_encode (Num i) = Inr [b] \<and> uint b = i mod 256 \<and> VarInt_decode [b] \<noteq> Inr (Num i)"
proof -
  let ?b = "word_of_int i :: byte"
  have e: "VarInt_encode (Num i) = Inr [?b]"
    using assms by (simp add: encode_tier1)
  have "VarInt_decode [?b] \<noteq> Inr (Num i)"
  proof (cases "?b = 0xfd \<or> ?b = 0xfe \<or> ?b = 0xff")
    case True
    then show ?thesis
      by (auto simp add: VarInt_decode_def js_index.simps readUInt16LE_def getUint16_def
          readUInt32LE_def getUint32_def readUIntLE_def readUIntLE_loop.simps)
  next
    case False
    then have "VarInt_decode [?b] = Inr (Num (uint ?b))"
      by (simp add: decode_tier1)
    moreover have "uint ?b \<noteq> i"
      using assms by (metis uint_ge_0 not_less)
    ultimately show ?thesis by simp
  qed
  with e show ?thesis
    by (auto simp add: uint8_woi)
qed

theorem VarInt_encode_negative_witness:
  "(-1::int) < 0 \<and> VarInt_encode (Num (-1)) = Inr [0xff] \<and> VarInt_decode [0xff] = Inr NaN"
proof -
  from VarInt_encode_negative [of "-1"]
  obtain b where "VarInt_encode (Num (-1)) = Inr [b]" and "uint b = (-1) mod 256"
    by auto
  moreover have "VarInt_encode (Num (-1)) = Inr [0xff]"
    by (simp add: encode_tier1)
  moreover have "VarInt_decode [0xff] = Inr NaN"
    by (simp add: VarInt_decode_def js_index.simps readUIntLE_def readUIntLE_loop.simps)
  ultimately show ?thesis by simp
qed

section \<open>Properties of the VarStr and Witness codecs\<close>

lemma varint_bytes:
  assumes "n < 0x1000000000000"
  shows "VarInt_encode (Num (int n)) = Inr (varint_bytes n)"
    and "VarInt_decode (varint_bytes n @ rest) = Inr (Num (int n))"
    and "headerSize (varint_bytes n @ rest) = length (varint_bytes n)"
proof -
  have "0 \<le> int n" "int n < 0x1000000000000"
    using assms by simp_all
  from VarInt_header [OF this] obtain h where
    h: "VarInt_encode (Num (int n)) = Inr h"
       "\<forall>rest. VarInt_decode (h @ rest) = Inr (Num (int n)) \<and> headerSize (h @ rest) = length h"
    by blast
  from h(1) have eq: "varint_bytes n = h"
    by (simp add: varint_bytes_def)
  show "VarInt_encode (Num (int n)) = Inr (varint_bytes n)"
    using h(1) eq by simp
  show "VarInt_decode (varint_bytes n @ rest) = Inr (Num (int n))"
    using h(2) eq by simp
  show "headerSize (varint_bytes n @ rest) = length (varint_bytes n)"
    using h(2) eq by simp
qed

lemma VarStr_encode_bytes:
  "length w < 0x1000000000000 \<Longrightarrow> VarStr_encode w = Inr (varstr_bytes w)"
  by (simp add: VarStr_encode_def varint_bytes(1) varstr_bytes_def)

lemma VarStr_decode_bytes:
  assumes "length w < 0x1000000000000"
  shows "VarStr_decode (varstr_bytes w @ rest) = Inr w"
proof -
  have "VarInt_decode (varint_bytes (length w) @ (w @ rest)) = Inr (Num (int (length w)))"
    and "headerSize (varint_bytes (length w) @ (w @ rest)) = length (varint_bytes (length w))"
    using assms by (rule varint_bytes(2), rule varint_bytes(3))
  then show ?thesis
    by (simp add: VarStr_decode_def varstr_bytes_def)
qed

lemma serialize_forEach_bytes:
  "\<forall>w\<in>set ws. length w < 0x1000000000000 \<Longrightarrow>
   serialize_forEach ws stack = Inr (stack @ items_bytes ws)"
proof (induction ws arbitrary: stack)
  case Nil
  then show ?case by (simp add: items_bytes_def)
next
  case (Cons w ws)
  then show ?case
    by (simp add: VarStr_encode_bytes BufferUtil_concat_def concatBytes_def items_bytes_def)
qed

lemma deserialize_loop_bytes:
  "\<forall>w\<in>set ws. length w < 0x1000000000000 \<Longrightarrow> n - i = int (length ws) \<Longrightarrow>
   deserialize_loop (Num n) i (items_bytes ws @ extra) acc = Inr (acc @ ws)"
proof (induction ws arbitrary: i acc)
  case Nil
  then show ?case
    by (subst deserialize_loop.simps) simp
next
  case (Cons w ws)
  have lt: "i < n"
    using Cons.prems(2) by simp
  have w: "length w < 0x1000000000000"
    using Cons.prems(1) by simp
  have split: "items_bytes (w # ws) @ extra = varstr_bytes w @ (items_bytes ws @ extra)"
    by (simp add: items_bytes_def)
  have IH: "deserialize_loop (Num n) (i + 1) (items_bytes ws @ extra) (acc @ [w])
              = Inr ((acc @ [w]) @ ws)"
    using Cons.prems by (intro Cons.IH) simp_all
  have "deserialize_loop (Num n) i (varstr_bytes w @ (items_bytes ws @ extra)) acc
          = deserialize_loop (Num n) (i + 1) (items_bytes ws @ extra) (acc @ [w])"
    by (subst deserialize_loop.simps)
      (simp add: lt VarStr_decode_bytes [OF w] VarStr_encode_bytes [OF w] subarray_from
        ensureBuffer_def)
  then show ?case
    unfolding split IH by simp
qed

lemma serialize_stack_bytes:
  assumes "length ws < 0x1000000000000" and "\<forall>w\<in>set ws. length w < 0x1000000000000"
  shows "serialize_stack ws = Inr (varint_bytes (length ws) @ items_bytes ws)"
  using assms by (simp add: serialize_stack_def varint_bytes(1) serialize_forEach_bytes)

lemma deserialize_raw:
  assumes "length ws < 0x1000000000000" and "\<forall>w\<in>set ws. length w < 0x1000000000000"
  shows "deserialize h (Raw (varint_bytes (length ws) @ items_bytes ws @ extra)) = Inr ws"
proof -
  have "deserialize_loop (Num (int (length ws))) 0 (items_bytes ws @ extra) [] = Inr ([] @ ws)"
    using assms(2) by (rule deserialize_loop_bytes) simp
  then show ?thesis
    using assms(1)
    by (simp add: deserialize_def varint_bytes subarray_from ensureBuffer_def)
qed

lemma subarray_range:
  "i \<le> length v \<Longrightarrow> subarray v (Num (int i)) (Num (int i + int c)) = take c (drop i v)"
  by (auto simp add: subarray_def Let_def min_def max_def)

lemma bytesToBase64_loop_eq:
  "bytesToBase64_loop v i binary = binary @ fromCharCode (drop i v)"
proof (induction v i binary rule: bytesToBase64_loop.induct)
  case (1 v i binary)
  show ?case
  proof (cases "i < length v")
    case True
    have "take chunkSize (drop i v) @ drop (i + chunkSize) v = drop i v"
      by (metis append_take_drop_id drop_drop add.commute)
    then have "fromCharCode (take chunkSize (drop i v)) @ fromCharCode (drop (i + chunkSize) v)
        = fromCharCode (drop i v)"
      unfolding fromCharCode_def by (metis map_append)
    then show ?thesis
      using True "1.IH" [OF True]
      by (subst bytesToBase64_loop.simps) (simp add: subarray_range)
  next
    case False
    then show ?thesis
      by (subst bytesToBase64_loop.simps) (simp add: fromCharCode_def)
  qed
qed

lemma base64ToBytes_loop_eq:
  "length out = length binary \<Longrightarrow> i \<le> length binary \<Longrightarrow>
   base64ToBytes_loop binary i out = take i out @ map code_of (drop i binary)"
proof (induction binary i out rule: base64ToBytes_loop.induct)
  case (1 binary i out)
  show ?case
  proof (cases "i < length binary")
    case True
    let ?out = "js_store out i (charCodeAt binary i)"
    have out: "?out = out[i := code_of (binary ! i)]"
      using True "1.prems" by (simp add: js_store_def charCodeAt_def code_of_def)
    have "base64ToBytes_loop binary (i + 1) ?out
            = take (i + 1) ?out @ map code_of (drop (i + 1) binary)"
      using True "1.prems" by (intro "1.IH") (simp_all add: out)
    also have "take (i + 1) ?out = take i out @ [code_of (binary ! i)]"
      using True "1.prems" by (simp add: out take_Suc_conv_app_nth)
    also have "(take i out @ [code_of (binary ! i)]) @ map code_of (drop (i + 1) binary)
        = take i out @ map code_of (drop i binary)"
      using True by (simp add: Cons_nth_drop_Suc [symmetric])
    finally show ?thesis
      using True by (subst base64ToBytes_loop.simps) simp
  next
    case False
    then show ?thesis
      using "1.prems" by (subst base64ToBytes_loop.simps) simp
  qed
qed

lemma code_of_char_of: "code_of (char_of (uint b)) = b"
proof -
  have "uint b < 256" "0 \<le> uint b"
    using uint_lt2p [of b] by simp_all
  then show ?thesis
    by (simp add: code_of_def)
qed

lemma code_of_fromCharCode: "map code_of (fromCharCode v) = v"
  by (induction v) (simp_all add: fromCharCode_def code_of_char_of)

lemma fromBase64_toBase64:
  assumes "btoa h = Some enc" and "atob h = Some dec" and "enc (fromCharCode v) = Inr t"
    and "dec t = Inr (fromCharCode v)"
  shows "toBase64 h v = Inr t" and "fromBase64 h t = Inr v"
proof -
  show "toBase64 h v = Inr t"
    using assms by (simp add: toBase64_def bytesToBase64_def bytesToBase64_loop_eq)
  have "base64ToBytes_loop (fromCharCode v) 0 (replicate (length (fromCharCode v)) 0)
          = map code_of (fromCharCode v)"
    by (subst base64ToBytes_loop_eq) simp_all
  then show "fromBase64 h t = Inr v"
    using assms by (simp add: fromBase64_def base64ToBytes_def code_of_fromCharCode)
qed

lemma VarStr_encode_size: "VarStr_encode w = Inr v \<Longrightarrow> length w < 0x1000000000000"
proof -
  assume "VarStr_encode w = Inr v"
  then have "\<exists>b. VarInt_encode (Num (int (length w))) = Inr b"
    by (auto simp add: VarStr_encode_def split: sum.splits)
  then have "int (length w) < 0x1000000000000"
    using encode_total [of "int (length w)"] by simp
  then show ?thesis by simp
qed

lemma serialize_forEach_sizes:
  "serialize_forEach ws stack = Inr raw \<Longrightarrow> \<forall>w\<in>set ws. length w < 0x1000000000000"
proof (induction ws arbitrary: stack)
  case Nil
  then show ?case by simp
next
  case (Cons w ws)
  from Cons.prems obtain v where v: "VarStr_encode w = Inr v"
    and rest: "serialize_forEach ws (BufferUtil_concat [stack, v]) = Inr raw"
    by (auto split: sum.splits)
  from v have "length w < 0x1000000000000"
    by (rule VarStr_encode_size)
  moreover from rest have "\<forall>w\<in>set ws. length w < 0x1000000000000"
    by (rule Cons.IH)
  ultimately show ?case by simp
qed

lemma serialize_stack_sizes:
  assumes "serialize_stack ws = Inr raw"
  shows "length ws < 0x1000000000000" and "\<forall>w\<in>set ws. length w < 0x1000000000000"
proof -
  from assms obtain h where h: "VarInt_encode (Num (int (length ws))) = Inr h"
    and rest: "serialize_forEach ws h = Inr raw"
    by (auto simp add: serialize_stack_def split: sum.splits)
  from h have "int (length ws) < 0x1000000000000"
    using encode_total [of "int (length ws)"] by auto
  then show "length ws < 0x1000000000000" by simp
  from rest show "\<forall>w\<in>set ws. length w < 0x1000000000000"
    by (rule serialize_forEach_sizes)
qed

lemma deserialize_trailing:
  assumes "serialize_stack items = Inr raw"
  shows "deserialize h (Raw (raw @ extra)) = Inr items"
proof -
  note sz = serialize_stack_sizes [OF assms]
  have "raw = varint_bytes (length items) @ items_bytes items"
    using serialize_stack_bytes [OF sz] assms by simp
  then show ?thesis
    using deserialize_raw [OF sz, of h extra] by simp
qed

text \<open>
  \<^bold>\<open>C5.\<close> When \<open>raw\<close> is the witness stack that \<open>Witness.serialize\<close> builds for \<open>items\<close>,
  \<open>Witness.deserialize\<close> applied to \<open>raw\<close> followed by any bytes \<open>extra\<close> does not fail and
  returns exactly \<open>items\<close>: the bytes after the declared witnesses are ignored.
\<close>

theorem Witness_trailing_bytes:
  assumes "serialize_stack items = Inr raw"
  shows "deserialize h (Raw (raw @ extra)) = Inr items"
  using assms by (rule deserialize_trailing)

lemma stack_example: "serialize_stack [[0x01, 0x02, 0x03], [], [0x04]] = Inr [3, 3, 1, 2, 3, 0, 1, 4]"
  by (simp add: serialize_stack_def VarStr_encode_def encode_tier1 BufferUtil_concat_def
      concatBytes_def)

theorem Witness_trailing_bytes_witness:
  "serialize_stack [[0x01, 0x02, 0x03], [], [0x04]] = Inr [3, 3, 1, 2, 3, 0, 1, 4] \<and>
   deserialize \<lparr>atob = None, btoa = None\<rparr> (Raw ([3, 3, 1, 2, 3, 0, 1, 4] @ [9, 9, 9]))
     = Inr [[0x01, 0x02, 0x03], [], [0x04]]"
  using Witness_trailing_bytes [OF stack_example] stack_example by simp

text \<open>
  \<^bold>\<open>C4.\<close> For every list \<open>items\<close> of byte strings (fewer than \<open>2^48\<close> of them, each shorter
  than \<open>2^48\<close> bytes, which is every list a JavaScript engine can hold) and a host whose
  \<^verbatim>\<open>atob\<close> inverts its \<^verbatim>\<open>btoa\<close>, \<open>Witness.serialize\<close> returns a string that
  \<open>Witness.deserialize\<close> turns back into \<open>items\<close>, element by element and in order; so does
  the raw witness stack; and the stack of the empty list is the single byte of VarInt 0.
\<close>

theorem Witness_roundtrip:
  assumes "btoa h = Some enc" and "atob h = Some dec"
    and "\<forall>s. \<exists>t. enc s = Inr t \<and> dec t = Inr s"
    and "length items < 0x1000000000000"
    and "\<forall>w\<in>set items. length w < 0x1000000000000"
  shows "(\<exists>s. serialize h items = Inr s \<and> deserialize h (Base64 s) = Inr items) \<and>
         (\<exists>raw. serialize_stack items = Inr raw \<and> deserialize h (Raw raw) = Inr items) \<and>
         serialize_stack [] = Inr [0x00]"
proof -
  let ?raw = "varint_bytes (length items) @ items_bytes items"
  have raw: "serialize_stack items = Inr ?raw"
    using assms(4,5) by (rule serialize_stack_bytes)
  have rt: "deserialize h (Raw ?raw) = Inr items"
    using deserialize_trailing [OF raw, of h "[]"] by simp
  from assms(3) obtain t where t: "enc (fromCharCode ?raw) = Inr t" "dec t = Inr (fromCharCode ?raw)"
    by blast
  note b64 = fromBase64_toBase64 [OF assms(1,2) t]
  have "serialize h items = Inr t"
    by (simp add: serialize_def raw b64(1))
  moreover have "deserialize h (Base64 t) = Inr items"
    using rt by (simp add: deserialize_def b64(2))
  moreover have "serialize_stack [] = Inr [0x00]"
    by (simp add: serialize_stack_def encode_tier1)
  ultimately show ?thesis
    using raw rt by blast
qed

theorem Witness_roundtrip_witness:
  "btoa \<lparr>atob = Some Inr, btoa = Some Inr\<rparr> = Some Inr \<and>
   atob \<lparr>atob = Some Inr, btoa = Some Inr\<rparr> = Some Inr \<and>
   (\<forall>s::string. \<exists>t. (Inr s :: error + string) = Inr t \<and> (Inr t :: error + string) = Inr s) \<and>
   length [[0x01, 0x02], [], [0x01, 0x02 :: byte]] < 0x1000000000000 \<and>
   (\<exists>s. serialize \<lparr>atob = Some Inr, btoa = Some Inr\<rparr> [[0x01, 0x02], [], [0x01, 0x02]] = Inr s \<and>
        deserialize \<lparr>atob = Some Inr, btoa = Some Inr\<rparr> (Base64 s)
          = Inr [[0x01, 0x02], [], [0x01, 0x02]])"
  using Witness_roundtrip [of "\<lparr>atob = Some Inr, btoa = Some Inr\<rparr>" Inr Inr
      "[[0x01, 0x02], [], [0x01, 0x02]]"]
  by simp

section \<open>Properties of the strict DER signature decoder\<close>

lemma js_index_nth:
  "0 \<le> k \<Longrightarrow> k < int (length p) \<Longrightarrow> js_index p (Num k) = Num (uint (p ! nat k))"
  by simp

lemma int32_of_byte: "sint ((word_of_int (uint (b::byte)) :: 32 word) AND w) = uint (b AND ucast w)"
proof -
  have "(word_of_int (uint b) :: 32 word) AND w = ucast (b AND ucast w)"
    by (rule bit_word_eqI) (auto simp add: bit_simps dest: bit_imp_le_length)
  moreover have "sint (ucast x :: 32 word) = uint x" for x :: byte
  proof -
    have "uint x < 256"
      using uint_lt2p [of x] by simp
    then have hi: "uint x < 2 ^ 31"
      by (rule less_trans) simp
    have "- (2 ^ 31) \<le> (0::int)"
      by simp
    then have lo: "- (2 ^ 31) \<le> uint x"
      using uint_ge_0 [of x] by (rule order_trans)
    from lo hi have "signed_take_bit 31 (uint x) = uint x"
      by (rule signed_take_bit_int_eq_self)
    then show ?thesis
      by (simp add: signed_ucast_eq)
  qed
  ultimately show ?thesis
    by simp
qed

lemma js_and_byte:
  "js_and (Num (uint (b::byte))) (Num 0x80) = Num (uint (b AND 0x80))"
  using int32_of_byte [of b "0x80"] by (simp add: js_and_def)

lemma js_and_not_byte:
  "js_and (Num (uint (b::byte))) (js_not (Num 0x80)) = Num (uint (b AND 0x7f))"
proof -
  have u: "(ucast (NOT (0x80 :: 32 word)) :: byte) = 0x7f"
    by simp
  have n: "ToInt32 (js_not (Num 0x80)) = NOT 0x80"
    by (simp add: js_not_def)
  have "js_and (Num (uint b)) (js_not (Num 0x80))
          = Num (sint ((word_of_int (uint b) :: 32 word) AND NOT 0x80))"
    unfolding js_and_def n by simp
  also have "\<dots> = Num (uint (b AND 0x7f))"
    unfolding int32_of_byte u ..
  finally show ?thesis .
qed

lemma not_0x80: "(NOT 0x80 :: byte) = 0x7f"
  by simp

lemma nat_int_m1: "nat (int n - 1) = n - 1"
  by (cases n) simp_all

lemma payload_butlast: "payload_of buffer = butlast buffer"
  by (cases "buffer = []")
    (auto simp add: payload_of_def subarray_def Let_def butlast_conv_take min_def max_def
      nat_int_m1)

lemma subarray_nat2: "a \<le> b \<Longrightarrow> b \<le> length p \<Longrightarrow>
   subarray p (Num (int a)) (Num (int b)) = take (b - a) (drop a p)"
  by (auto simp add: subarray_def Let_def min_def max_def simp flip: of_nat_diff)

lemma decode2_TooShort: "length p < 8 \<Longrightarrow> decode2 p = Inl TooShort"
  by (simp add: decode2_def)

lemma decode2_TooLong: "72 < length p \<Longrightarrow> decode2 p = Inl TooLong"
  by (simp add: decode2_def)

lemma js_truthy_high: "js_truthy (js_and (Num (uint b)) (Num 0x80)) = high_bit b"
  by (simp add: js_and_byte high_bit_def uint_0_iff)

lemma uint_byte_consts:
  "(uint (b::byte) = 48) = (b = 48)"
  "(uint (b::byte) = 2) = (b = 2)"
  by (auto simp add: word_uint_eq_iff)

lemma js_index_int:
  "0 \<le> k \<Longrightarrow> k + 1 \<le> int (length p) \<Longrightarrow> js_index p (Num k) = Num (uint (p ! nat k))"
  by simp

declare js_index.simps [simp del]

lemma uint_eq_0_conv: "(uint w = 0) = (uint w < 1)"
  using uint_ge_0 [of w] by linarith

lemma byte_eq_0_conv: "((w::byte) = 0) = (uint w < 1)"
  using uint_eq_0_conv [of w] by (simp add: uint_0_iff)

lemma subarray_int2:
  "0 \<le> a \<Longrightarrow> a \<le> b \<Longrightarrow> b \<le> int (length p) \<Longrightarrow>
   subarray p (Num a) (Num b) = take (nat (b - a)) (drop (nat a) p)"
  by (simp add: subarray_def Let_def min_def max_def)

lemma subarray_int1:
  assumes "0 \<le> a"
  shows "subarray p (Num a) Undefined = drop (nat a) p"
proof -
  from assms obtain n where "a = int n"
    by (rule nonneg_int_cases)
  then show ?thesis
    by (simp add: subarray_from)
qed

lemma decode2_refines_spec: "decode2 p = spec_strict_der p"
  unfolding decode2_def spec_strict_der_def Let_def
  apply (rule if_cong, simp, simp)
  apply (rule if_cong, simp, simp)
  apply (rule if_cong, simp add: js_index_int uint_byte_consts, simp)
  apply (rule if_cong, simp add: js_index_int uint_byte_consts, simp)
  apply (rule if_cong, simp add: js_index_int uint_byte_consts, simp)
  apply (rule if_cong, simp add: js_index_int uint_byte_consts, simp)
  apply (rule if_cong, simp add: js_index_int uint_byte_consts, simp)
  apply (rule if_cong, simp add: js_index_int uint_byte_consts, simp)
  apply (rule if_cong, simp add: js_index_int uint_byte_consts, simp)
  apply (rule if_cong, simp add: js_index_int uint_byte_consts, simp)
  apply (rule if_cong, simp add: js_index_int uint_byte_consts js_truthy_high, simp)
  apply (rule if_cong, simp add: js_index_int uint_byte_consts js_truthy_high uint_0_iff, simp)
  apply (rule if_cong, simp add: js_index_int js_truthy_high uint_eq_0_conv, simp)
  apply (rule if_cong, simp add: js_index_int js_truthy_high uint_eq_0_conv byte_eq_0_conv
      cong: conj_cong, simp)
  apply (simp add: js_index_int uint_eq_0_conv subarray_int1 subarray_int2)
  apply (rule sym, rule take_all)
  apply (simp only: length_drop)
  apply (unfold uint_nat)
  apply linarith
  done

end
